theory Spec2Isabelle
  imports Main "HOL-Library.Word" "HOL-Library.Monad_Syntax"
begin

unbundle bit_operations_syntax

section \<open>Data model of \<open>objfile/scanner.go\<close>\<close>

text \<open>
  Go's \<open>byte\<close>, \<open>uint8\<close>, \<open>uint16\<close>, \<open>uint32\<close> and \<open>uint64\<close> are words of the
  corresponding width: arithmetic wraps, conversions between widths are \<open>ucast\<close>
  (zero extension) and \<open>scast\<close> (sign extension). A slice \<open>[]byte\<close> is a list of bytes.
  A run-time panic (an index or a slice bound out of range) is the value \<open>None\<close>.
  The length of a Go slice is an \<open>int\<close>, so it is below \<open>2^63\<close>; a list has no such
  bound, and the statements about the values the resolvers read assume
  \<open>length data < 2^64\<close>, which every buffer of the program satisfies and under which
  \<open>uint64(i)\<close> loses nothing.
\<close>

type_synonym byte = "8 word"

text \<open>\<open>[]byte("...")\<close>: the bytes of an ASCII string literal.\<close>

definition bytesOf :: "string \<Rightarrow> byte list" where
  "bytesOf s = map (\<lambda>c. of_nat (of_char c)) s"

record signatureModuleDataInitx64 =
  x64_moduleDataPtrLoc :: "8 word"
  x64_moduleDataPtrOffsetLoc :: "8 word"
  x64_signature :: "byte list"

record signatureModuleDataInitx86 =
  x86_moduleDataPtrLoc :: "8 word"
  x86_moduleDataSignature :: "byte list"
  x86_loopMaxDistanceFromModuleData :: "16 word"
  x86_loopSignature :: "byte list"

record signatureModuleDataInitPPC =
  ppc_moduleDataPtrHi :: "8 word"
  ppc_moduleDataPtrLo :: "8 word"
  ppc_signature :: "byte list"

record SignatureMatch =
  moduleDataVA :: "64 word"

definition x64sig :: signatureModuleDataInitx64 where
  "x64sig = \<lparr> x64_moduleDataPtrLoc = 3, x64_moduleDataPtrOffsetLoc = 7,
     x64_signature = bytesOf ''48 8D 0? ?? ?? ?? ?? EB ?? 48 8? 8? ?? 02 00 00 66 0F 1F 44 00 00'' \<rparr>"

definition x86sig :: signatureModuleDataInitx86 where
  "x86sig = \<lparr> x86_moduleDataPtrLoc = 2,
     x86_moduleDataSignature = bytesOf ''8D ?? ?? ?? ?? ?? EB 1A'',
     x86_loopMaxDistanceFromModuleData = 50,
     x86_loopSignature = bytesOf ''8B ?? ?? ?? ?? ?? 8B ?? 24 20 85 ?? 75 E2'' \<rparr>"

definition PPC_BE_sig :: signatureModuleDataInitPPC where
  "PPC_BE_sig = \<lparr> ppc_moduleDataPtrHi = 2, ppc_moduleDataPtrLo = 6,
     ppc_signature = bytesOf ''3? 80 00 2C 3? ?? 80 00 48 ?? ?? 08 E? ?? 02 30 7C ?? 00 00 41 82 ?? ??'' \<rparr>"

section \<open>Slices with Go's bounds checks\<close>

text \<open>
  \<open>s[i]\<close>, \<open>s[lo:]\<close> and \<open>s[:hi]\<close>. Go checks \<open>s[:hi]\<close> against the capacity of the
  slice; the model checks it against the length, so the model panics at least whenever
  the program does, and a read the model allows lies inside the buffer.
\<close>

definition index :: "'a list \<Rightarrow> nat \<Rightarrow> 'a option" where
  "index s i = (if i < length s then Some (s ! i) else None)"

definition sliceFrom :: "'a list \<Rightarrow> nat \<Rightarrow> 'a list option" where
  "sliceFrom s lo = (if lo \<le> length s then Some (drop lo s) else None)"

definition sliceTo :: "'a list \<Rightarrow> nat \<Rightarrow> 'a list option" where
  "sliceTo s hi = (if hi \<le> length s then Some (take hi s) else None)"

text \<open>\<open>binary.LittleEndian.Uint32\<close> and \<open>binary.BigEndian.Uint16\<close> of \<open>encoding/binary\<close>.\<close>

definition LittleEndian_Uint32 :: "byte list \<Rightarrow> 32 word option" where
  "LittleEndian_Uint32 b = do {
     _ \<leftarrow> index b 3;
     b0 \<leftarrow> index b 0; b1 \<leftarrow> index b 1; b2 \<leftarrow> index b 2; b3 \<leftarrow> index b 3;
     Some (ucast b0 OR push_bit 8 (ucast b1) OR push_bit 16 (ucast b2) OR push_bit 24 (ucast b3))
   }"

definition BigEndian_Uint16 :: "byte list \<Rightarrow> 16 word option" where
  "BigEndian_Uint16 b = do {
     _ \<leftarrow> index b 1;
     b0 \<leftarrow> index b 0; b1 \<leftarrow> index b 1;
     Some (ucast b1 OR push_bit 8 (ucast b0))
   }"

section \<open>The pattern scanner\<close>

definition getPatternSize :: "byte list \<Rightarrow> nat" where
  "getPatternSize signature = (length signature + 1) div 3"

definition getBits :: "byte \<Rightarrow> byte" where
  "getBits x = (if x \<ge> 0x30 \<and> x \<le> 0x39 then x - 0x30 else (x AND 0xDF) - 0x41 + 0xa)"

text \<open>
  The inner loop of \<open>findPattern\<close>: \<open>matchLoop data signature patternSize i sigIdx\<close> runs
  the loop from the current \<open>sigIdx\<close> and returns the value of \<open>sigIdx\<close> when the loop
  is left (by its condition or by \<open>break\<close>). \<open>0x3F\<close> is \<open>'?'\<close>.
\<close>

declare Option.bind_cong [fundef_cong]

function matchLoop :: "byte list \<Rightarrow> byte list \<Rightarrow> nat \<Rightarrow> nat \<Rightarrow> nat \<Rightarrow> nat option" where
  "matchLoop data signature patternSize i sigIdx =
     (if sigIdx < patternSize \<and> i + sigIdx < length data then
        (let sigPatIdx = sigIdx * 3 in do {
           s0 \<leftarrow> sliceFrom signature sigPatIdx;
           c0 \<leftarrow> index s0 0;
           s1 \<leftarrow> sliceFrom signature sigPatIdx;
           c1 \<leftarrow> index s1 1;
           d \<leftarrow> sliceFrom data (i + sigIdx);
           datByt \<leftarrow> index d 0;
           q1 \<leftarrow> index signature (sigPatIdx + 1);
           q0 \<leftarrow> index signature sigPatIdx;
           let sigHi = push_bit 4 (getBits c0);
               sigLo = getBits c1;
               sigLo = (if q1 = 0x3F then datByt AND 0xF else sigLo);
               sigHi = (if q0 = 0x3F then datByt AND 0xF0 else sigHi)
           in if datByt \<noteq> (sigHi OR sigLo) then Some sigIdx
              else matchLoop data signature patternSize i (sigIdx + 1)
         })
      else Some sigIdx)"
  by pat_completeness auto
termination
  by (relation "measure (\<lambda>(data, signature, patternSize, i, sigIdx). patternSize - sigIdx)") auto

declare matchLoop.simps [simp del]

text \<open>
  The outer loop \<open>for i := range data\<close>, over the remaining offsets, with the matches
  collected so far. \<open>uint64(i)\<close> is \<open>of_nat i\<close>.
\<close>

fun scanLoop :: "byte list \<Rightarrow> byte list \<Rightarrow> (64 word \<Rightarrow> SignatureMatch list option)
    \<Rightarrow> nat list \<Rightarrow> SignatureMatch list \<Rightarrow> SignatureMatch list option" where
  "scanLoop data signature callback [] matches = Some matches"
| "scanLoop data signature callback (i # is) matches = do {
     sigIdx \<leftarrow> matchLoop data signature (getPatternSize signature) i 0;
     if sigIdx \<ge> getPatternSize signature then do {
       ms \<leftarrow> callback (of_nat i);
       scanLoop data signature callback is (matches @ ms)
     } else scanLoop data signature callback is matches
   }"

definition findPattern :: "byte list \<Rightarrow> byte list \<Rightarrow> (64 word \<Rightarrow> SignatureMatch list option)
    \<Rightarrow> SignatureMatch list option" where
  "findPattern data signature callback = scanLoop data signature callback [0..<length data] []"

section \<open>The three resolvers and the collector\<close>

text \<open>The closures of \<open>findModuleInitPCHeader\<close>, with the variables they capture as parameters.\<close>

definition x64Resolve :: "byte list \<Rightarrow> 64 word \<Rightarrow> 64 word \<Rightarrow> SignatureMatch list option" where
  "x64Resolve data sectionBase sigPtr = do {
     s \<leftarrow> sliceFrom data (unat (sigPtr + ucast (x64_moduleDataPtrLoc x64sig)));
     b \<leftarrow> sliceTo s 4;
     v \<leftarrow> LittleEndian_Uint32 b;
     let moduleDataPtrOffset = (ucast v :: 64 word);
         moduleDataIpOffset = sigPtr + ucast (x64_moduleDataPtrOffsetLoc x64sig)
     in Some [\<lparr> moduleDataVA = moduleDataPtrOffset + moduleDataIpOffset + sectionBase \<rparr>]
   }"

definition x86LoopResolve :: "byte list \<Rightarrow> 64 word \<Rightarrow> 64 word \<Rightarrow> SignatureMatch list option" where
  "x86LoopResolve data sigPtr sigPtr2 =
     (if sigPtr2 < ucast (x86_loopMaxDistanceFromModuleData x86sig) then do {
        s \<leftarrow> sliceFrom data (unat (sigPtr + ucast (x86_moduleDataPtrLoc x86sig)));
        b \<leftarrow> sliceTo s 4;
        v \<leftarrow> LittleEndian_Uint32 b;
        let moduleDataPtr = (ucast v :: 64 word)
        in Some [\<lparr> moduleDataVA = moduleDataPtr \<rparr>]
      } else Some [])"

definition x86Resolve :: "byte list \<Rightarrow> 64 word \<Rightarrow> SignatureMatch list option" where
  "x86Resolve data sigPtr = do {
     sub \<leftarrow> sliceFrom data (unat sigPtr);
     findPattern sub (x86_loopSignature x86sig) (x86LoopResolve data sigPtr)
   }"

definition ppcResolve :: "byte list \<Rightarrow> 64 word \<Rightarrow> SignatureMatch list option" where
  "ppcResolve data sigPtr = do {
     sh \<leftarrow> sliceFrom data (unat (sigPtr + ucast (ppc_moduleDataPtrHi PPC_BE_sig)));
     bh \<leftarrow> sliceTo sh 2;
     vh \<leftarrow> BigEndian_Uint16 bh;
     let moduleDataPtrHi = (ucast vh :: 64 word);
     sl \<leftarrow> sliceFrom data (unat (sigPtr + ucast (ppc_moduleDataPtrLo PPC_BE_sig)));
     bl \<leftarrow> sliceTo sl 2;
     vl \<leftarrow> BigEndian_Uint16 bl;
     let moduleDataPtrLo = (scast vl :: 64 word);
         moduleDataIpOffset = push_bit 16 moduleDataPtrHi + moduleDataPtrLo
     in Some [\<lparr> moduleDataVA = moduleDataIpOffset \<rparr>]
   }"

definition x64Scan :: "byte list \<Rightarrow> 64 word \<Rightarrow> SignatureMatch list option" where
  "x64Scan data sectionBase = findPattern data (x64_signature x64sig) (x64Resolve data sectionBase)"

definition x86Scan :: "byte list \<Rightarrow> SignatureMatch list option" where
  "x86Scan data = findPattern data (x86_moduleDataSignature x86sig) (x86Resolve data)"

definition ppcScan :: "byte list \<Rightarrow> SignatureMatch list option" where
  "ppcScan data = findPattern data (ppc_signature PPC_BE_sig) (ppcResolve data)"

definition findModuleInitPCHeader :: "byte list \<Rightarrow> 64 word \<Rightarrow> SignatureMatch list option" where
  "findModuleInitPCHeader data sectionBase = do {
     let matches = [];
     r64 \<leftarrow> x64Scan data sectionBase;
     let matches = matches @ r64;
     r86 \<leftarrow> x86Scan data;
     let matches = matches @ r86;
     rppc \<leftarrow> ppcScan data;
     let matches = matches @ rppc;
     Some matches
   }"

section \<open>Notions used to state the properties\<close>

subsection \<open>Read off the source\<close>

text \<open>
  The test of one pattern position in the body of the inner loop: \<open>c0\<close> and \<open>c1\<close> are the
  two characters of the position, \<open>datByt\<close> the data byte; the loop goes on when the test
  holds and breaks when it fails.
\<close>

definition byteTest :: "byte \<Rightarrow> byte \<Rightarrow> byte \<Rightarrow> bool" where
  "byteTest c0 c1 datByt =
     (let sigHi = push_bit 4 (getBits c0);
          sigLo = getBits c1;
          sigLo = (if c1 = 0x3F then datByt AND 0xF else sigLo);
          sigHi = (if c0 = 0x3F then datByt AND 0xF0 else sigHi)
      in datByt = (sigHi OR sigLo))"

text \<open>
  The attempt at offset \<open>i\<close> is a match: the inner loop is left with
  \<open>sigIdx >= patternSize\<close>, the condition under which \<open>findPattern\<close> calls the callback.
\<close>

definition matchesAt :: "byte list \<Rightarrow> byte list \<Rightarrow> nat \<Rightarrow> bool" where
  "matchesAt data signature i =
     (case matchLoop data signature (getPatternSize signature) i 0 of
        None \<Rightarrow> False
      | Some sigIdx \<Rightarrow> sigIdx \<ge> getPatternSize signature)"

definition matchOffsets :: "byte list \<Rightarrow> byte list \<Rightarrow> nat list" where
  "matchOffsets data signature = filter (matchesAt data signature) [0..<length data]"

text \<open>
  Calling the callback on a list of offsets, in order, appending what it returns;
  a panic of the callback ends the run.
\<close>

fun collect :: "(64 word \<Rightarrow> SignatureMatch list option) \<Rightarrow> nat list \<Rightarrow> SignatureMatch list
    \<Rightarrow> SignatureMatch list option" where
  "collect callback [] matches = Some matches"
| "collect callback (i # is) matches =
     callback (of_nat i) \<bind> (\<lambda>ms. collect callback is (matches @ ms))"

text \<open>The 32-bit little-endian and the 16-bit big-endian value at offset \<open>k\<close> of a buffer.\<close>

definition le32At :: "byte list \<Rightarrow> nat \<Rightarrow> 32 word" where
  "le32At data k = ucast (data ! k) OR push_bit 8 (ucast (data ! (k + 1)))
     OR push_bit 16 (ucast (data ! (k + 2))) OR push_bit 24 (ucast (data ! (k + 3)))"

definition be16At :: "byte list \<Rightarrow> nat \<Rightarrow> 16 word" where
  "be16At data k = ucast (data ! (k + 1)) OR push_bit 8 (ucast (data ! k))"

subsection \<open>The pattern format as the specification words it\<close>

text \<open>
  A well-formed pattern text has length \<open>3 * byteCount - 1\<close> for a positive byte count;
  each byte is two characters, each an uppercase hexadecimal digit or the wildcard
  \<open>?\<close> (\<open>0x3F\<close>), and the bytes are separated by single spaces (\<open>0x20\<close>).
\<close>

definition isHexDigit :: "byte \<Rightarrow> bool" where
  "isHexDigit c = ((0x30 \<le> c \<and> c \<le> 0x39) \<or> (0x41 \<le> c \<and> c \<le> 0x46))"

definition hexValue :: "byte \<Rightarrow> byte" where
  "hexValue c = (if c \<le> 0x39 then c - 0x30 else c - 0x41 + 10)"

definition isNibbleChar :: "byte \<Rightarrow> bool" where
  "isNibbleChar c = (isHexDigit c \<or> c = 0x3F)"

definition wellFormed :: "byte list \<Rightarrow> bool" where
  "wellFormed signature =
     (length signature mod 3 = 2 \<and>
      list_all (\<lambda>k. isNibbleChar (signature ! (3 * k)) \<and> isNibbleChar (signature ! (3 * k + 1)))
        [0..<getPatternSize signature] \<and>
      list_all (\<lambda>k. signature ! (3 * k + 2) = 0x20) [0..<getPatternSize signature - 1])"

text \<open>
  A wildcard nibble matches any data nibble; a fixed nibble matches when it equals the
  corresponding nibble of the data byte.
\<close>

definition specNibbleMatches :: "byte \<Rightarrow> byte \<Rightarrow> bool" where
  "specNibbleMatches c v = (c = 0x3F \<or> hexValue c = v)"

definition specByteMatches :: "byte \<Rightarrow> byte \<Rightarrow> byte \<Rightarrow> bool" where
  "specByteMatches c0 c1 d =
     (specNibbleMatches c0 (drop_bit 4 d) \<and> specNibbleMatches c1 (take_bit 4 d))"

definition specMatchesAt :: "byte list \<Rightarrow> byte list \<Rightarrow> nat \<Rightarrow> bool" where
  "specMatchesAt data signature i =
     (i + getPatternSize signature \<le> length data \<and>
      list_all (\<lambda>k. specByteMatches (signature ! (3 * k)) (signature ! (3 * k + 1)) (data ! (i + k)))
        [0..<getPatternSize signature])"

definition allWildcards :: "byte list \<Rightarrow> bool" where
  "allWildcards signature =
     list_all (\<lambda>k. signature ! (3 * k) = 0x3F \<and> signature ! (3 * k + 1) = 0x3F)
       [0..<getPatternSize signature]"

definition noWildcards :: "byte list \<Rightarrow> bool" where
  "noWildcards signature =
     list_all (\<lambda>k. signature ! (3 * k) \<noteq> 0x3F \<and> signature ! (3 * k + 1) \<noteq> 0x3F)
       [0..<getPatternSize signature]"

text \<open>The byte sequence a pattern without wildcards denotes.\<close>

definition patternBytes :: "byte list \<Rightarrow> byte list" where
  "patternBytes signature =
     map (\<lambda>k. push_bit 4 (hexValue (signature ! (3 * k))) OR hexValue (signature ! (3 * k + 1)))
       [0..<getPatternSize signature]"

text \<open>
  Hexadecimal letters of either case, the letter of the opposite case, and pattern texts
  that differ only in the case of some hexadecimal letters.
\<close>

definition isHexLetter :: "byte \<Rightarrow> bool" where
  "isHexLetter c = ((0x41 \<le> c \<and> c \<le> 0x46) \<or> (0x61 \<le> c \<and> c \<le> 0x66))"

definition swapHexCase :: "byte \<Rightarrow> byte" where
  "swapHexCase c = (if 0x41 \<le> c \<and> c \<le> 0x46 then c + 0x20
                    else if 0x61 \<le> c \<and> c \<le> 0x66 then c - 0x20 else c)"

definition caseVariant :: "byte list \<Rightarrow> byte list \<Rightarrow> bool" where
  "caseVariant signature signature' =
     list_all2 (\<lambda>c c'. c' = c \<or> (isHexLetter c \<and> c' = swapHexCase c)) signature signature'"

subsection \<open>Example buffers\<close>

text \<open>
  The instruction bytes of the three listings in the comments of the source: the 64-bit
  idiom (and the same with the displacement \<open>F0 FF FF FF\<close>, which is \<open>-16\<close> as a signed
  32-bit value), the 32-bit idiom with the loop signature placed \<open>d\<close> bytes after the
  start of the first signature, and the big-endian idiom.
\<close>

definition x64Example :: "byte list" where
  "x64Example = [0x48, 0x8D, 0x0D, 0x8F, 0xDA, 0x26, 0x00, 0xEB, 0x0D,
     0x48, 0x8B, 0x89, 0x30, 0x02, 0x00, 0x00, 0x66, 0x0F, 0x1F, 0x44, 0x00, 0x00]"

definition x64Negative :: "byte list" where
  "x64Negative = [0x48, 0x8D, 0x0D, 0xF0, 0xFF, 0xFF, 0xFF, 0xEB, 0x0D,
     0x48, 0x8B, 0x89, 0x30, 0x02, 0x00, 0x00, 0x66, 0x0F, 0x1F, 0x44, 0x00, 0x00]"

definition x86Example :: "nat \<Rightarrow> byte list" where
  "x86Example d = [0x8D, 0x05, 0x60, 0x49, 0x6A, 0x00, 0xEB, 0x1A] @ replicate (d - 8) 0x90 @
     [0x8B, 0x80, 0x18, 0x01, 0x00, 0x00, 0x8B, 0x54, 0x24, 0x20, 0x85, 0xC0, 0x75, 0xE2]"

definition ppcExample :: "byte list" where
  "ppcExample = [0x3C, 0x80, 0x00, 0x2C, 0x38, 0x84, 0x80, 0x00, 0x48, 0x00, 0x00, 0x08,
     0xE8, 0x84, 0x02, 0x30, 0x7C, 0x24, 0x00, 0x00, 0x41, 0x82, 0x01, 0xA8]"

section \<open>The inner loop\<close>

lemma getPatternSize_bound: "3 * getPatternSize signature \<le> length signature + 1"
  by (simp add: getPatternSize_def)

lemma if_neq_swap: "(if a \<noteq> b then x else y) = (if a = b then y else x)"
  by simp

lemma matchLoop_step:
  assumes "3 * patternSize \<le> length signature + 1"
  shows "matchLoop data signature patternSize i k =
     (if k < patternSize \<and> i + k < length data then
        (if byteTest (signature ! (3 * k)) (signature ! (3 * k + 1)) (data ! (i + k))
         then matchLoop data signature patternSize i (k + 1) else Some k)
      else Some k)"
proof (cases "k < patternSize \<and> i + k < length data")
  case False
  then have c: "(k < patternSize \<and> i + k < length data) = False" by simp
  show ?thesis by (subst matchLoop.simps) (simp add: c)
next
  case True
  then have a: "3 * k + 1 < length signature" "3 * k < length signature" "i + k < length data"
    "k < patternSize"
    using assms by auto
  have b: "k * 3 = 3 * k" by simp
  have s: "sliceFrom signature (3 * k) = Some (drop (3 * k) signature)"
    "sliceFrom data (i + k) = Some (drop (i + k) data)"
    using a by (simp_all add: sliceFrom_def)
  have x: "index (drop (3 * k) signature) 0 = Some (signature ! (3 * k))"
    "index (drop (3 * k) signature) 1 = Some (signature ! (3 * k + 1))"
    "index (drop (i + k) data) 0 = Some (data ! (i + k))"
    "index signature (3 * k + 1) = Some (signature ! (3 * k + 1))"
    "index signature (3 * k) = Some (signature ! (3 * k))"
    using a by (simp_all add: index_def)
  show ?thesis
    by (subst matchLoop.simps)
       (simp only: a b s x Let_def byteTest_def bind.bind_lunit simp_thms if_True if_False
          if_neq_swap cong: if_cong)
qed

text \<open>The loop never panics: every index it uses is in range.\<close>

lemma matchLoop_total:
  assumes "3 * patternSize \<le> length signature + 1"
  shows "\<exists>n. matchLoop data signature patternSize i k = Some n \<and> k \<le> n"
proof (induction "patternSize - k" arbitrary: k)
  case 0
  then show ?case using matchLoop_step [OF assms, of data i k] by simp
next
  case (Suc d)
  then have "d = patternSize - (k + 1)" by simp
  from Suc.hyps(1) [OF this] obtain n
    where n: "matchLoop data signature patternSize i (k + 1) = Some n" "k + 1 \<le> n"
    by blast
  show ?case
    using matchLoop_step [OF assms, of data i k] n by auto
qed

lemma matchLoop_full:
  assumes "3 * patternSize \<le> length signature + 1"
  shows "k \<le> patternSize \<Longrightarrow> matchLoop data signature patternSize i k = Some n \<Longrightarrow>
     (patternSize \<le> n \<longleftrightarrow>
       (\<forall>j. k \<le> j \<and> j < patternSize \<longrightarrow>
          i + j < length data \<and>
          byteTest (signature ! (3 * j)) (signature ! (3 * j + 1)) (data ! (i + j))))"
proof (induction "patternSize - k" arbitrary: k)
  case 0
  then have "n = k" "k = patternSize"
    using matchLoop_step [OF assms, of data i k] by auto
  then show ?case by auto
next
  case (Suc d)
  then have lt: "k < patternSize" by simp
  let ?P = "\<lambda>j. i + j < length data \<and>
     byteTest (signature ! (3 * j)) (signature ! (3 * j + 1)) (data ! (i + j))"
  show ?case
  proof (cases "?P k")
    case False
    then have "n = k" using Suc.prems(2) lt matchLoop_step [OF assms, of data i k]
      by (auto split: if_splits)
    then show ?thesis using False lt by auto
  next
    case True
    then have m: "matchLoop data signature patternSize i (k + 1) = Some n"
      using Suc.prems(2) lt matchLoop_step [OF assms, of data i k] by simp
    have d: "d = patternSize - (k + 1)" using Suc.hyps(2) by simp
    have "patternSize \<le> n \<longleftrightarrow> (\<forall>j. k + 1 \<le> j \<and> j < patternSize \<longrightarrow> ?P j)"
      using Suc.hyps(1) [OF d _ m] lt by simp
    also have "\<dots> \<longleftrightarrow> (\<forall>j. k \<le> j \<and> j < patternSize \<longrightarrow> ?P j)"
    proof
      assume h: "\<forall>j. k + 1 \<le> j \<and> j < patternSize \<longrightarrow> ?P j"
      show "\<forall>j. k \<le> j \<and> j < patternSize \<longrightarrow> ?P j"
      proof (intro allI impI)
        fix j assume j: "k \<le> j \<and> j < patternSize"
        show "?P j"
        proof (cases "j = k")
          case True
          then show ?thesis using \<open>?P k\<close> by simp
        next
          case False
          then have "k + 1 \<le> j" using j by simp
          then show ?thesis using h j by blast
        qed
      qed
    next
      assume h: "\<forall>j. k \<le> j \<and> j < patternSize \<longrightarrow> ?P j"
      show "\<forall>j. k + 1 \<le> j \<and> j < patternSize \<longrightarrow> ?P j"
        using h by (metis add_leD1)
    qed
    finally show ?thesis .
  qed
qed

lemma matchesAt_iff:
  "matchesAt data signature i \<longleftrightarrow>
     (\<forall>j < getPatternSize signature. i + j < length data \<and>
        byteTest (signature ! (3 * j)) (signature ! (3 * j + 1)) (data ! (i + j)))"
proof -
  obtain n where n: "matchLoop data signature (getPatternSize signature) i 0 = Some n"
    using matchLoop_total [OF getPatternSize_bound] by blast
  show ?thesis
    using matchLoop_full [OF getPatternSize_bound _ n] n by (simp add: matchesAt_def)
qed

lemma matchesAt_fits:
  assumes "matchesAt data signature i" and "i < length data"
  shows "i + getPatternSize signature \<le> length data"
proof (cases "getPatternSize signature")
  case 0
  then show ?thesis using assms(2) by simp
next
  case (Suc p)
  then have "i + p < length data" using assms(1) by (simp add: matchesAt_iff)
  then show ?thesis using Suc by simp
qed

section \<open>The outer loop\<close>

lemma scanLoop_collect:
  "scanLoop data signature callback is acc =
   collect callback (filter (matchesAt data signature) is) acc"
proof (induction "is" arbitrary: acc)
  case Nil
  then show ?case by simp
next
  case (Cons i "is")
  obtain n where n: "matchLoop data signature (getPatternSize signature) i 0 = Some n"
    using matchLoop_total [OF getPatternSize_bound] by blast
  have m: "matchesAt data signature i \<longleftrightarrow> getPatternSize signature \<le> n"
    using n by (simp add: matchesAt_def)
  show ?case
    using m n Cons.IH by (cases "matchesAt data signature i") simp_all
qed

lemma findPattern_collect:
  "findPattern data signature callback = collect callback (matchOffsets data signature) []"
  by (simp add: findPattern_def matchOffsets_def scanLoop_collect)

lemma collect_pure:
  assumes "\<And>i. i \<in> set is \<Longrightarrow> callback (of_nat i) = Some (f i)"
  shows "collect callback is acc = Some (acc @ concat (map f is))"
  using assms by (induction "is" arbitrary: acc) simp_all

lemma findPattern_eq:
  assumes "\<And>i. i \<in> set (matchOffsets data signature) \<Longrightarrow> callback (of_nat i) = Some (f i)"
  shows "findPattern data signature callback = Some (concat (map f (matchOffsets data signature)))"
  using collect_pure [of "matchOffsets data signature" callback f "[]"] assms
  by (simp add: findPattern_collect)

lemma matchOffsets_fit:
  "i \<in> set (matchOffsets data signature) \<Longrightarrow>
   i < length data \<and> i + getPatternSize signature \<le> length data \<and> matchesAt data signature i"
  by (auto simp: matchOffsets_def matchesAt_fits)

section \<open>Nibbles and hexadecimal digits\<close>

lemma nib_lt: "(h :: byte) < 16 \<Longrightarrow> take_bit 4 h = h"
  using less_mask_eq [of h 4] by (simp add: take_bit_eq_mask)

lemma nib_bit: "(h :: byte) < 16 \<Longrightarrow> bit h n \<Longrightarrow> n < 4"
  using nib_lt [of h] by (metis bit_take_bit_iff)

lemma and_F: "(d :: byte) AND 0xF = take_bit 4 d"
  by (simp add: take_bit_eq_mask mask_eq_exp_minus_1)

lemma F0_mask: "(0xF0 :: byte) = push_bit 4 (mask 4)"
  by (simp add: mask_eq_exp_minus_1)

lemma and_F0: "(d :: byte) AND 0xF0 = push_bit 4 (drop_bit 4 d)"
  unfolding F0_mask
  by (rule bit_eqI) (auto simp add: bit_simps dest: bit_imp_le_length)

lemma take_lt: "take_bit 4 (d :: byte) < 16"
  using and_mask_less' [of 4 d] by (simp add: take_bit_eq_mask)

lemma drop_lt: "drop_bit 4 (d :: byte) < 16"
proof -
  have "unat d < 2 ^ 8" using unsigned_less [of d, where ?'a = nat] by simp
  then have "unat d div 16 < 16" by simp
  then show ?thesis
    by (simp add: word_less_nat_alt drop_bit_eq_div unat_div)
qed

lemma split_byte: "push_bit 4 (drop_bit 4 d) OR take_bit 4 d = (d :: byte)"
  by (rule bit_eqI) (auto simp add: bit_simps dest: bit_imp_le_length)

lemma join_hi: "h < 16 \<Longrightarrow> l < 16 \<Longrightarrow> drop_bit 4 (push_bit 4 h OR l :: byte) = h"
  by (rule bit_eqI) (auto simp add: bit_simps dest: nib_bit)

lemma join_lo: "h < 16 \<Longrightarrow> l < 16 \<Longrightarrow> take_bit 4 (push_bit 4 h OR l :: byte) = l"
  by (rule bit_eqI) (auto simp add: bit_simps dest: nib_bit)

lemma join_iff:
  "h < 16 \<Longrightarrow> l < 16 \<Longrightarrow>
   ((d :: byte) = push_bit 4 h OR l) \<longleftrightarrow> (drop_bit 4 d = h \<and> take_bit 4 d = l)"
proof
  assume hl: "h < 16" "l < 16" and d: "d = push_bit 4 h OR l"
  show "drop_bit 4 d = h \<and> take_bit 4 d = l"
    unfolding d using join_hi [OF hl] join_lo [OF hl] by blast
next
  assume "drop_bit 4 d = h \<and> take_bit 4 d = l"
  then show "d = push_bit 4 h OR l" using split_byte [of d] by simp
qed

lemma byte_range_cases:
  fixes c :: byte
  assumes "a \<le> c" "c \<le> b"
  shows "\<exists>k \<le> unat b - unat a. c = a + of_nat k"
proof -
  have "unat a \<le> unat c" "unat c \<le> unat b" using assms by (simp_all add: word_le_nat_alt)
  then have "unat c - unat a \<le> unat b - unat a" by simp
  moreover have "c = a + of_nat (unat c - unat a)"
    using \<open>unat a \<le> unat c\<close> by (simp add: of_nat_diff)
  ultimately show ?thesis by blast
qed

lemma le_5_cases: "k \<le> (5::nat) \<Longrightarrow> k = 0 \<or> k = 1 \<or> k = 2 \<or> k = 3 \<or> k = 4 \<or> k = 5"
  by arith

lemma le_9_cases: "k \<le> (9::nat) \<Longrightarrow> k = 0 \<or> k = 1 \<or> k = 2 \<or> k = 3 \<or> k = 4 \<or> k = 5 \<or> k = 6 \<or> k = 7 \<or> k = 8 \<or> k = 9"
  by arith

lemma upper_cases:
  "0x41 \<le> (c :: byte) \<Longrightarrow> c \<le> 0x46 \<Longrightarrow> c \<in> {0x41, 0x42, 0x43, 0x44, 0x45, 0x46}"
  using byte_range_cases [where a = "0x41" and c = c and b = "0x46"] by (auto dest!: le_5_cases)

lemma lower_cases:
  "0x61 \<le> (c :: byte) \<Longrightarrow> c \<le> 0x66 \<Longrightarrow> c \<in> {0x61, 0x62, 0x63, 0x64, 0x65, 0x66}"
  using byte_range_cases [where a = "0x61" and c = c and b = "0x66"] by (auto dest!: le_5_cases)

lemma digit_cases:
  "0x30 \<le> (c :: byte) \<Longrightarrow> c \<le> 0x39 \<Longrightarrow>
   c \<in> {0x30, 0x31, 0x32, 0x33, 0x34, 0x35, 0x36, 0x37, 0x38, 0x39}"
  using byte_range_cases [where a = "0x30" and c = c and b = "0x39"] by (auto dest!: le_9_cases)


lemma isHexDigit_getBits: "isHexDigit c \<Longrightarrow> getBits c = hexValue c \<and> hexValue c < 16 \<and> c \<noteq> 0x3F"
proof -
  assume "isHexDigit c"
  then consider "c \<in> {0x30, 0x31, 0x32, 0x33, 0x34, 0x35, 0x36, 0x37, 0x38, 0x39}"
    | "c \<in> {0x41, 0x42, 0x43, 0x44, 0x45, 0x46}"
    unfolding isHexDigit_def using upper_cases [of c] digit_cases [of c] by blast
  then show ?thesis
  proof cases
    case 1
    then show ?thesis by (elim insertE emptyE) (simp_all add: getBits_def hexValue_def)
  next
    case 2
    then show ?thesis by (elim insertE emptyE) (simp_all add: getBits_def hexValue_def)
  qed
qed

lemma swapHexCase_getBits:
  "isHexLetter c \<Longrightarrow> getBits (swapHexCase c) = getBits c \<and> swapHexCase c \<noteq> 0x3F \<and> c \<noteq> 0x3F"
proof -
  assume "isHexLetter c"
  then consider "c \<in> {0x61, 0x62, 0x63, 0x64, 0x65, 0x66}"
    | "c \<in> {0x41, 0x42, 0x43, 0x44, 0x45, 0x46}"
    unfolding isHexLetter_def using upper_cases [of c] lower_cases [of c] by blast
  then show ?thesis
  proof cases
    case 1
    then show ?thesis by (elim insertE emptyE) (simp_all add: getBits_def swapHexCase_def)
  next
    case 2
    then show ?thesis by (elim insertE emptyE) (simp_all add: getBits_def swapHexCase_def)
  qed
qed


lemma byteTest_unfold:
  "byteTest c0 c1 d \<longleftrightarrow>
     d = (if c0 = 0x3F then push_bit 4 (drop_bit 4 d) else push_bit 4 (getBits c0))
         OR (if c1 = 0x3F then take_bit 4 d else getBits c1)"
  by (simp add: byteTest_def and_F and_F0)

lemma byteTest_spec:
  assumes "isNibbleChar c0" "isNibbleChar c1"
  shows "byteTest c0 c1 d = specByteMatches c0 c1 d"
proof -
  define h where "h = (if c0 = 0x3F then drop_bit 4 d else getBits c0)"
  define l where "l = (if c1 = 0x3F then take_bit 4 d else getBits c1)"
  have h: "h < 16" "specNibbleMatches c0 (drop_bit 4 d) \<longleftrightarrow> drop_bit 4 d = h"
    using assms(1) isHexDigit_getBits [of c0] drop_lt [of d]
    by (auto simp: h_def isNibbleChar_def specNibbleMatches_def)
  have l: "l < 16" "specNibbleMatches c1 (take_bit 4 d) \<longleftrightarrow> take_bit 4 d = l"
    using assms(2) isHexDigit_getBits [of c1] take_lt [of d]
    by (auto simp: l_def isNibbleChar_def specNibbleMatches_def)
  have "byteTest c0 c1 d \<longleftrightarrow> d = push_bit 4 h OR l"
    by (simp add: byteTest_unfold h_def l_def)
  also have "\<dots> \<longleftrightarrow> drop_bit 4 d = h \<and> take_bit 4 d = l"
    by (rule join_iff [OF h(1) l(1)])
  finally show ?thesis by (simp add: specByteMatches_def h(2) l(2))
qed

lemma byteTest_wild: "byteTest 0x3F 0x3F d"
  by (simp add: byteTest_unfold split_byte)

lemma byteTest_fixed:
  assumes "isHexDigit c0" "isHexDigit c1"
  shows "byteTest c0 c1 d \<longleftrightarrow> d = push_bit 4 (hexValue c0) OR hexValue c1"
  using isHexDigit_getBits [OF assms(1)] isHexDigit_getBits [OF assms(2)]
  by (simp add: byteTest_unfold)

lemma byteTest_swap:
  assumes "c0' = c0 \<or> (isHexLetter c0 \<and> c0' = swapHexCase c0)"
    and "c1' = c1 \<or> (isHexLetter c1 \<and> c1' = swapHexCase c1)"
  shows "byteTest c0' c1' d = byteTest c0 c1 d"
proof -
  have "getBits c0' = getBits c0 \<and> (c0' = 0x3F \<longleftrightarrow> c0 = 0x3F)"
    using assms(1) swapHexCase_getBits [of c0] by auto
  moreover have "getBits c1' = getBits c1 \<and> (c1' = 0x3F \<longleftrightarrow> c1 = 0x3F)"
    using assms(2) swapHexCase_getBits [of c1] by auto
  ultimately show ?thesis by (simp add: byteTest_def)
qed

section \<open>Matching against the pattern format\<close>

lemma wellFormed_size:
  assumes "wellFormed signature"
  shows "0 < getPatternSize signature" "length signature = 3 * getPatternSize signature - 1"
proof -
  have "length signature mod 3 = 2" using assms by (simp add: wellFormed_def)
  then show "0 < getPatternSize signature" "length signature = 3 * getPatternSize signature - 1"
    unfolding getPatternSize_def by presburger+
qed

lemma fits_iff:
  assumes "0 < (n::nat)"
  shows "(\<forall>j < n. i + j < m) \<longleftrightarrow> i + n \<le> m"
proof
  assume a: "\<forall>j < n. i + j < m"
  have "n - 1 < n" using assms by simp
  then have "i + (n - 1) < m" using a by blast
  then show "i + n \<le> m" using assms by simp
next
  assume "i + n \<le> m"
  then show "\<forall>j < n. i + j < m" by simp
qed

lemma wellFormed_chars:
  assumes "wellFormed signature" "k < getPatternSize signature"
  shows "isNibbleChar (signature ! (3 * k))" "isNibbleChar (signature ! (3 * k + 1))"
  using assms by (simp_all add: wellFormed_def list_all_iff)

lemma matchesAt_spec:
  assumes "wellFormed signature"
  shows "matchesAt data signature i = specMatchesAt data signature i"
proof -
  let ?n = "getPatternSize signature"
  have pos: "0 < ?n" using wellFormed_size(1) [OF assms] .
  have fit: "(\<forall>j < ?n. i + j < length data) \<longleftrightarrow> i + ?n \<le> length data"
    by (rule fits_iff [OF pos])
  have "matchesAt data signature i \<longleftrightarrow>
      (\<forall>j < ?n. i + j < length data) \<and>
      (\<forall>j < ?n. byteTest (signature ! (3 * j)) (signature ! (3 * j + 1)) (data ! (i + j)))"
    by (auto simp: matchesAt_iff)
  also have "\<dots> \<longleftrightarrow> i + ?n \<le> length data \<and>
      (\<forall>j < ?n. specByteMatches (signature ! (3 * j)) (signature ! (3 * j + 1)) (data ! (i + j)))"
    using wellFormed_chars [OF assms] by (simp add: fit byteTest_spec)
  finally show ?thesis by (auto simp add: specMatchesAt_def list_all_iff)
qed

lemma matchesAt_allWildcards:
  assumes "allWildcards signature" "0 < getPatternSize signature"
  shows "matchesAt data signature i \<longleftrightarrow> i + getPatternSize signature \<le> length data"
proof -
  let ?n = "getPatternSize signature"
  have w: "\<And>j. j < ?n \<Longrightarrow>
      byteTest (signature ! (3 * j)) (signature ! (3 * j + 1)) (data ! (i + j))"
    using assms(1) by (simp add: allWildcards_def list_all_iff byteTest_wild)
  have "matchesAt data signature i \<longleftrightarrow> (\<forall>j < ?n. i + j < length data)"
    using w by (auto simp: matchesAt_iff)
  also have "\<dots> \<longleftrightarrow> i + ?n \<le> length data"
    by (rule fits_iff [OF assms(2)])
  finally show ?thesis .
qed

lemma matchesAt_noWildcards:
  assumes "wellFormed signature" "noWildcards signature"
  shows "matchesAt data signature i \<longleftrightarrow>
     i + getPatternSize signature \<le> length data \<and>
     take (getPatternSize signature) (drop i data) = patternBytes signature"
proof -
  let ?n = "getPatternSize signature"
  have hex: "\<And>j. j < ?n \<Longrightarrow> isHexDigit (signature ! (3 * j)) \<and> isHexDigit (signature ! (3 * j + 1))"
    using wellFormed_chars [OF assms(1)] assms(2)
    by (auto simp: noWildcards_def list_all_iff isNibbleChar_def)
  have bt: "\<And>j. j < ?n \<Longrightarrow>
      byteTest (signature ! (3 * j)) (signature ! (3 * j + 1)) (data ! (i + j)) \<longleftrightarrow>
      data ! (i + j) = patternBytes signature ! j"
    using hex by (simp add: byteTest_fixed patternBytes_def)
  have len: "length (patternBytes signature) = ?n" by (simp add: patternBytes_def)
  show ?thesis
  proof (cases "i + ?n \<le> length data")
    case False
    then show ?thesis using matchesAt_spec [OF assms(1)] by (simp add: specMatchesAt_def)
  next
    case True
    then have l2: "length (take ?n (drop i data)) = ?n" by simp
    have "matchesAt data signature i \<longleftrightarrow> (\<forall>j < ?n. data ! (i + j) = patternBytes signature ! j)"
      using True bt by (auto simp: matchesAt_iff)
    also have "\<dots> \<longleftrightarrow> take ?n (drop i data) = patternBytes signature"
      using True len l2 by (auto simp: list_eq_iff_nth_eq)
    finally show ?thesis using True by simp
  qed
qed

lemma matchesAt_caseVariant:
  assumes "caseVariant signature signature'"
  shows "matchesAt data signature' i = matchesAt data signature i"
proof -
  have len: "length signature' = length signature"
    using assms by (simp add: caseVariant_def list_all2_lengthD)
  then have n: "getPatternSize signature' = getPatternSize signature"
    by (simp add: getPatternSize_def)
  have nth: "\<And>k. k < length signature \<Longrightarrow>
      signature' ! k = signature ! k \<or>
      (isHexLetter (signature ! k) \<and> signature' ! k = swapHexCase (signature ! k))"
    using assms by (simp add: caseVariant_def list_all2_conv_all_nth)
  have "\<And>j. j < getPatternSize signature \<Longrightarrow>
      byteTest (signature' ! (3 * j)) (signature' ! (3 * j + 1)) d =
      byteTest (signature ! (3 * j)) (signature ! (3 * j + 1)) d" for d
  proof -
    fix j assume "j < getPatternSize signature"
    then have "3 * j < length signature" "3 * j + 1 < length signature"
      using getPatternSize_bound [of signature] by simp_all
    then show "byteTest (signature' ! (3 * j)) (signature' ! (3 * j + 1)) d =
      byteTest (signature ! (3 * j)) (signature ! (3 * j + 1)) d"
      using nth by (intro byteTest_swap) blast+
  qed
  then show ?thesis by (simp add: matchesAt_iff n)
qed

lemma matchOffsets_caseVariant:
  assumes "caseVariant signature signature'"
  shows "matchOffsets data signature' = matchOffsets data signature"
  unfolding matchOffsets_def using matchesAt_caseVariant [OF assms] by presburger

section \<open>The resolvers at one offset\<close>

lemma unat_of_nat_add_le: "unat (of_nat i + of_nat k :: 64 word) \<le> i + k"
proof -
  have "unat (of_nat i + of_nat k :: 64 word) = (i + k) mod 2 ^ 64"
    using unat_of_nat [of "i + k", where ?'a = 64] by simp
  then show ?thesis by simp
qed

lemma unat_of_nat_add_eq: "i + k < 2 ^ 64 \<Longrightarrow> unat (of_nat i + of_nat k :: 64 word) = i + k"
  using unat_of_nat [of "i + k", where ?'a = 64] by simp

lemma unat_of_nat_le: "unat (of_nat i :: 64 word) \<le> i"
  using unat_of_nat_add_le [of i 0] by simp

lemma unat_of_nat_eq64: "i < 2 ^ 64 \<Longrightarrow> unat (of_nat i :: 64 word) = i"
  using unat_of_nat_add_eq [of i 0] by simp

lemma read_le32:
  assumes "k + 4 \<le> length data"
  shows "sliceFrom data k = Some (drop k data)"
    and "sliceTo (drop k data) 4 = Some (take 4 (drop k data))"
    and "LittleEndian_Uint32 (take 4 (drop k data)) = Some (le32At data k)"
  using assms
  by (simp_all add: sliceFrom_def sliceTo_def LittleEndian_Uint32_def index_def le32At_def)

lemma read_be16:
  assumes "k + 2 \<le> length data"
  shows "sliceFrom data k = Some (drop k data)"
    and "sliceTo (drop k data) 2 = Some (take 2 (drop k data))"
    and "BigEndian_Uint16 (take 2 (drop k data)) = Some (be16At data k)"
  using assms
  by (simp_all add: sliceFrom_def sliceTo_def BigEndian_Uint16_def index_def be16At_def)

lemma x64Resolve_at:
  assumes "unat (sigPtr + 3) + 4 \<le> length data"
  shows "x64Resolve data sectionBase sigPtr =
     Some [\<lparr> moduleDataVA = ucast (le32At data (unat (sigPtr + 3))) + (sigPtr + 7) + sectionBase \<rparr>]"
  using read_le32 [OF assms] by (simp add: x64Resolve_def x64sig_def)

lemma x86LoopResolve_at:
  assumes "unat (sigPtr + 2) + 4 \<le> length data"
  shows "x86LoopResolve data sigPtr sigPtr2 =
     Some (if sigPtr2 < 50 then [\<lparr> moduleDataVA = ucast (le32At data (unat (sigPtr + 2))) \<rparr>] else [])"
  using read_le32 [OF assms] by (simp add: x86LoopResolve_def x86sig_def)

lemma ppcResolve_at:
  assumes "unat (sigPtr + 2) + 2 \<le> length data" "unat (sigPtr + 6) + 2 \<le> length data"
  shows "ppcResolve data sigPtr =
     Some [\<lparr> moduleDataVA = push_bit 16 (ucast (be16At data (unat (sigPtr + 2))))
                             + scast (be16At data (unat (sigPtr + 6))) \<rparr>]"
  using read_be16 [OF assms(1)] read_be16 [OF assms(2)] by (simp add: ppcResolve_def PPC_BE_sig_def)

lemma signed_sum:
  "push_bit 16 (ucast (hi :: 16 word)) + scast (lo :: 16 word) =
   (word_of_int (uint hi * 2 ^ 16 + sint lo) :: 64 word)"
proof -
  have a: "(scast lo :: 64 word) = word_of_int (sint lo)" by (rule scast_eq)
  have b: "(ucast hi :: 64 word) = word_of_int (uint hi)" by (rule ucast_eq)
  show ?thesis
    unfolding push_bit_eq_mult a b
    by (simp only: of_int_add of_int_mult of_int_power of_int_numeral)
qed

lemma patternSizes:
  "getPatternSize (x64_signature x64sig) = 22"
  "getPatternSize (x86_moduleDataSignature x86sig) = 8"
  "getPatternSize (x86_loopSignature x86sig) = 14"
  "getPatternSize (ppc_signature PPC_BE_sig) = 24"
  by (simp_all add: getPatternSize_def x64sig_def x86sig_def PPC_BE_sig_def bytesOf_def)

section \<open>The three scans\<close>

lemma unat_off_le:
  "unat (of_nat i + 2 :: 64 word) \<le> i + 2"
  "unat (of_nat i + 3 :: 64 word) \<le> i + 3"
  "unat (of_nat i + 6 :: 64 word) \<le> i + 6"
  using unat_of_nat_add_le [of i 2] unat_of_nat_add_le [of i 3] unat_of_nat_add_le [of i 6]
  by simp_all

lemma unat_off_eq:
  assumes "i + 6 < 2 ^ 64"
  shows "unat (of_nat i + 2 :: 64 word) = i + 2"
    "unat (of_nat i + 3 :: 64 word) = i + 3"
    "unat (of_nat i + 6 :: 64 word) = i + 6"
  using unat_of_nat_add_eq [of i 2] unat_of_nat_add_eq [of i 3] unat_of_nat_add_eq [of i 6] assms
  by simp_all

lemma collect_total:
  assumes "\<And>i. i \<in> set is \<Longrightarrow> \<exists>r. callback (of_nat i) = Some r"
  shows "\<exists>r. collect callback is acc = Some r"
proof -
  have "\<And>i. i \<in> set is \<Longrightarrow> callback (of_nat i) = Some (the (callback (of_nat i)))"
    using assms by fastforce
  from collect_pure [of "is" callback "\<lambda>i. the (callback (of_nat i))" acc, OF this]
  show ?thesis by blast
qed

lemma findPattern_total:
  assumes "\<And>i. i < length data \<Longrightarrow> i + getPatternSize signature \<le> length data \<Longrightarrow>
     \<exists>r. callback (of_nat i) = Some r"
  shows "\<exists>r. findPattern data signature callback = Some r"
  unfolding findPattern_collect
  by (rule collect_total) (use assms matchOffsets_fit in blast)

lemma x64Resolve_total:
  assumes "i + 22 \<le> length data"
  shows "\<exists>r. x64Resolve data sectionBase (of_nat i) = Some r"
proof -
  have "unat (of_nat i + 3 :: 64 word) + 4 \<le> length data"
    using unat_off_le(2) [of i] assms by simp
  from x64Resolve_at [OF this] show ?thesis by blast
qed

lemma x64Resolve_value:
  assumes "length data < 2 ^ 64" "i + 7 \<le> length data"
  shows "x64Resolve data sectionBase (of_nat i) =
     Some [\<lparr> moduleDataVA = ucast (le32At data (i + 3)) + (of_nat i + 7) + sectionBase \<rparr>]"
proof -
  have e: "unat (of_nat i + 3 :: 64 word) = i + 3"
    using assms by (intro unat_off_eq) simp
  then have "unat (of_nat i + 3 :: 64 word) + 4 \<le> length data" using assms by simp
  from x64Resolve_at [OF this] show ?thesis by (simp add: e)
qed

lemma x64Scan_total: "\<exists>r. x64Scan data sectionBase = Some r"
  unfolding x64Scan_def
  by (rule findPattern_total) (simp add: patternSizes x64Resolve_total)

lemma x64Scan_value:
  assumes "length data < 2 ^ 64"
  shows "x64Scan data sectionBase =
     Some (map (\<lambda>m. \<lparr> moduleDataVA = ucast (le32At data (m + 3)) + (of_nat m + 7) + sectionBase \<rparr>)
       (matchOffsets data (x64_signature x64sig)))"
proof -
  let ?f = "\<lambda>m. [\<lparr> moduleDataVA = ucast (le32At data (m + 3)) + (of_nat m + 7) + sectionBase \<rparr>]"
  have "\<And>i. i \<in> set (matchOffsets data (x64_signature x64sig)) \<Longrightarrow>
      x64Resolve data sectionBase (of_nat i) = Some (?f i)"
  proof -
    fix i assume "i \<in> set (matchOffsets data (x64_signature x64sig))"
    then have "i + 22 \<le> length data" using matchOffsets_fit by (fastforce simp: patternSizes)
    then show "x64Resolve data sectionBase (of_nat i) = Some (?f i)"
      using assms by (intro x64Resolve_value) simp_all
  qed
  from findPattern_eq [of data "x64_signature x64sig" "x64Resolve data sectionBase" ?f, OF this]
  show ?thesis by (simp add: x64Scan_def concat_map_singleton)
qed

lemma x86LoopResolve_total:
  assumes "i + 8 \<le> length data"
  shows "\<exists>r. x86LoopResolve data (of_nat i) p = Some r"
proof -
  have "unat (of_nat i + 2 :: 64 word) + 4 \<le> length data"
    using unat_off_le(1) [of i] assms by simp
  from x86LoopResolve_at [OF this] show ?thesis by blast
qed

lemma x86Resolve_total:
  assumes "i + 8 \<le> length data"
  shows "\<exists>r. x86Resolve data (of_nat i) = Some r"
proof -
  have "unat (of_nat i :: 64 word) \<le> length data"
    using unat_of_nat_le [of i] assms by simp
  then have s: "sliceFrom data (unat (of_nat i :: 64 word)) = Some (drop (unat (of_nat i :: 64 word)) data)"
    by (simp add: sliceFrom_def)
  have "\<exists>r. findPattern (drop (unat (of_nat i :: 64 word)) data) (x86_loopSignature x86sig)
      (x86LoopResolve data (of_nat i)) = Some r"
    by (rule findPattern_total) (rule x86LoopResolve_total [OF assms])
  then show ?thesis by (simp add: x86Resolve_def s)
qed

lemma x86Scan_total: "\<exists>r. x86Scan data = Some r"
  unfolding x86Scan_def
  by (rule findPattern_total) (simp add: patternSizes x86Resolve_total)

lemma x86Resolve_value:
  assumes "length data < 2 ^ 64" "i + 8 \<le> length data"
  shows "x86Resolve data (of_nat i) =
     Some (concat (map (\<lambda>m2. if m2 < 50 then [\<lparr> moduleDataVA = ucast (le32At data (i + 2)) \<rparr>] else [])
       (matchOffsets (drop i data) (x86_loopSignature x86sig))))"
proof -
  let ?g = "\<lambda>m2. if m2 < (50::nat) then [\<lparr> moduleDataVA = ucast (le32At data (i + 2)) \<rparr>] else []"
  have i: "unat (of_nat i :: 64 word) = i" using assms by (intro unat_of_nat_eq64) simp
  have s: "sliceFrom data (unat (of_nat i :: 64 word)) = Some (drop i data)"
    using assms by (simp add: i sliceFrom_def)
  have e: "unat (of_nat i + 2 :: 64 word) = i + 2"
    using assms by (intro unat_off_eq) simp
  then have b: "unat (of_nat i + 2 :: 64 word) + 4 \<le> length data" using assms by simp
  have "\<And>m2. m2 \<in> set (matchOffsets (drop i data) (x86_loopSignature x86sig)) \<Longrightarrow>
      x86LoopResolve data (of_nat i) (of_nat m2) = Some (?g m2)"
  proof -
    fix m2 assume "m2 \<in> set (matchOffsets (drop i data) (x86_loopSignature x86sig))"
    then have "m2 < length (drop i data)" using matchOffsets_fit by blast
    then have "m2 < 2 ^ 64" using assms by simp
    then have "unat (of_nat m2 :: 64 word) = m2" by (rule unat_of_nat_eq64)
    then have "(of_nat m2 :: 64 word) < 50 \<longleftrightarrow> m2 < 50"
      by (simp add: word_less_nat_alt)
    then show "x86LoopResolve data (of_nat i) (of_nat m2) = Some (?g m2)"
      using x86LoopResolve_at [OF b, of "of_nat m2"] by (simp add: e)
  qed
  from findPattern_eq [of "drop i data" "x86_loopSignature x86sig" "x86LoopResolve data (of_nat i)" ?g,
      OF this]
  show ?thesis by (simp add: x86Resolve_def s)
qed

lemma ppcResolve_total:
  assumes "i + 24 \<le> length data"
  shows "\<exists>r. ppcResolve data (of_nat i) = Some r"
proof -
  have "unat (of_nat i + 2 :: 64 word) + 2 \<le> length data"
    "unat (of_nat i + 6 :: 64 word) + 2 \<le> length data"
    using unat_off_le(1) [of i] unat_off_le(3) [of i] assms by simp_all
  from ppcResolve_at [OF this] show ?thesis by blast
qed

lemma ppcResolve_value:
  assumes "length data < 2 ^ 64" "i + 8 \<le> length data"
  shows "ppcResolve data (of_nat i) =
     Some [\<lparr> moduleDataVA =
       word_of_int (uint (be16At data (i + 2)) * 2 ^ 16 + sint (be16At data (i + 6))) \<rparr>]"
proof -
  have e: "unat (of_nat i + 2 :: 64 word) = i + 2" "unat (of_nat i + 6 :: 64 word) = i + 6"
    using assms by (simp_all add: unat_off_eq)
  then have "unat (of_nat i + 2 :: 64 word) + 2 \<le> length data"
    "unat (of_nat i + 6 :: 64 word) + 2 \<le> length data"
    using assms by simp_all
  from ppcResolve_at [OF this] show ?thesis by (simp only: e signed_sum)
qed

lemma ppcScan_total: "\<exists>r. ppcScan data = Some r"
  unfolding ppcScan_def
  by (rule findPattern_total) (simp add: patternSizes ppcResolve_total)

lemma x86Scan_value:
  assumes "length data < 2 ^ 64"
  shows "x86Scan data =
     Some (concat (map (\<lambda>m. concat (map
         (\<lambda>m2. if m2 < 50 then [\<lparr> moduleDataVA = ucast (le32At data (m + 2)) \<rparr>] else [])
         (matchOffsets (drop m data) (x86_loopSignature x86sig))))
       (matchOffsets data (x86_moduleDataSignature x86sig))))"
proof -
  let ?f = "\<lambda>m. concat (map
         (\<lambda>m2. if m2 < (50::nat) then [\<lparr> moduleDataVA = ucast (le32At data (m + 2)) \<rparr>] else [])
         (matchOffsets (drop m data) (x86_loopSignature x86sig)))"
  have "\<And>i. i \<in> set (matchOffsets data (x86_moduleDataSignature x86sig)) \<Longrightarrow>
      x86Resolve data (of_nat i) = Some (?f i)"
  proof -
    fix i assume "i \<in> set (matchOffsets data (x86_moduleDataSignature x86sig))"
    then have "i + 8 \<le> length data" using matchOffsets_fit by (fastforce simp: patternSizes)
    then show "x86Resolve data (of_nat i) = Some (?f i)"
      using assms by (intro x86Resolve_value) simp_all
  qed
  from findPattern_eq [of data "x86_moduleDataSignature x86sig" "x86Resolve data" ?f, OF this]
  show ?thesis by (simp add: x86Scan_def)
qed

lemma ppcScan_value:
  assumes "length data < 2 ^ 64"
  shows "ppcScan data =
     Some (map (\<lambda>m. \<lparr> moduleDataVA =
         word_of_int (uint (be16At data (m + 2)) * 2 ^ 16 + sint (be16At data (m + 6))) \<rparr>)
       (matchOffsets data (ppc_signature PPC_BE_sig)))"
proof -
  let ?f = "\<lambda>m. [\<lparr> moduleDataVA =
         word_of_int (uint (be16At data (m + 2)) * 2 ^ 16 + sint (be16At data (m + 6))) \<rparr>]"
  have "\<And>i. i \<in> set (matchOffsets data (ppc_signature PPC_BE_sig)) \<Longrightarrow>
      ppcResolve data (of_nat i) = Some (?f i)"
  proof -
    fix i assume "i \<in> set (matchOffsets data (ppc_signature PPC_BE_sig))"
    then have "i + 24 \<le> length data" using matchOffsets_fit by (fastforce simp: patternSizes)
    then show "ppcResolve data (of_nat i) = Some (?f i)"
      using assms by (intro ppcResolve_value) simp_all
  qed
  from findPattern_eq [of data "ppc_signature PPC_BE_sig" "ppcResolve data" ?f, OF this]
  show ?thesis by (simp add: ppcScan_def concat_map_singleton)
qed

lemma byteTest_00: "byteTest 0x30 0x30 d \<longleftrightarrow> d = 0x00"
  and byteTest_2C: "byteTest 0x32 0x43 d \<longleftrightarrow> d = 0x2C"
  and byteTest_80: "byteTest 0x38 0x30 d \<longleftrightarrow> d = 0x80"
  by (simp_all add: byteTest_def getBits_def)

lemma ppc_signature_chars:
  "ppc_signature PPC_BE_sig ! 6 = 0x30" "ppc_signature PPC_BE_sig ! 7 = 0x30"
  "ppc_signature PPC_BE_sig ! 9 = 0x32" "ppc_signature PPC_BE_sig ! 10 = 0x43"
  "ppc_signature PPC_BE_sig ! 18 = 0x38" "ppc_signature PPC_BE_sig ! 19 = 0x30"
  "ppc_signature PPC_BE_sig ! 21 = 0x30" "ppc_signature PPC_BE_sig ! 22 = 0x30"
  by (simp_all add: PPC_BE_sig_def bytesOf_def)

lemma ppc_fixed_bytes:
  assumes "matchesAt data (ppc_signature PPC_BE_sig) m"
  shows "data ! (m + 2) = 0x00 \<and> data ! (m + 3) = 0x2C \<and> data ! (m + 6) = 0x80 \<and> data ! (m + 7) = 0x00"
proof -
  let ?s = "ppc_signature PPC_BE_sig"
  have a: "\<And>j. j < 24 \<Longrightarrow> byteTest (?s ! (3 * j)) (?s ! (3 * j + 1)) (data ! (m + j))"
    using assms by (simp add: matchesAt_iff patternSizes)
  show ?thesis
    using a [of 2] a [of 3] a [of 6] a [of 7]
    by (simp add: ppc_signature_chars byteTest_00 byteTest_2C byteTest_80)
qed

lemma ppc_fixed_value:
  assumes "data ! (m + 2) = 0x00 \<and> data ! (m + 3) = 0x2C \<and> data ! (m + 6) = 0x80 \<and> data ! (m + 7) = (0x00 :: byte)"
  shows "(word_of_int (uint (be16At data (m + 2)) * 2 ^ 16 + sint (be16At data (m + 6))) :: 64 word)
     = 0x2B8000"
proof -
  have e: "m + 2 + 1 = m + 3" "m + 6 + 1 = m + 7" by simp_all
  have b: "data ! (m + 2) = 0x00" "data ! (m + 3) = 0x2C" "data ! (m + 6) = 0x80"
    "data ! (m + 7) = 0x00"
    using assms by blast+
  have "be16At data (m + 2) = 0x002C" "be16At data (m + 6) = 0x8000"
    unfolding be16At_def e b by simp_all
  then show ?thesis by simp
qed

lemma ppcScan_const:
  assumes "length data < 2 ^ 64"
  shows "ppcScan data =
     Some (replicate (length (matchOffsets data (ppc_signature PPC_BE_sig)))
       \<lparr> moduleDataVA = 0x2B8000 \<rparr>)"
proof -
  have "map (\<lambda>m. \<lparr> moduleDataVA =
         word_of_int (uint (be16At data (m + 2)) * 2 ^ 16 + sint (be16At data (m + 6))) \<rparr>)
       (matchOffsets data (ppc_signature PPC_BE_sig))
     = map (\<lambda>m. \<lparr> moduleDataVA = 0x2B8000 \<rparr>) (matchOffsets data (ppc_signature PPC_BE_sig))"
  proof (rule map_cong [OF refl])
    fix x assume "x \<in> set (matchOffsets data (ppc_signature PPC_BE_sig))"
    then have "matchesAt data (ppc_signature PPC_BE_sig) x" using matchOffsets_fit by blast
    from ppc_fixed_value [OF ppc_fixed_bytes [OF this]]
    show "\<lparr> moduleDataVA =
         word_of_int (uint (be16At data (x + 2)) * 2 ^ 16 + sint (be16At data (x + 6))) \<rparr>
       = \<lparr> moduleDataVA = 0x2B8000 \<rparr>"
      by simp
  qed
  then show ?thesis by (simp add: ppcScan_value [OF assms] map_replicate_const)
qed

lemma findModuleInitPCHeader_eq:
  assumes "x64Scan data sectionBase = Some a" "x86Scan data = Some b" "ppcScan data = Some c"
  shows "findModuleInitPCHeader data sectionBase = Some (a @ b @ c)"
  using assms by (simp add: findModuleInitPCHeader_def)

section \<open>The claims\<close>

text \<open>
  C4 (scanner bounds safety). Every attempt of the inner loop ends without a panic, so no
  index into the data or the pattern text leaves its range; every offset at which the
  scan reports a match leaves room for the whole pattern inside the buffer; the scan
  calls the callback at exactly those offsets; and a buffer shorter than the pattern,
  an empty one in particular, gives the empty list, whatever the callback does.
\<close>

theorem findPattern_bounds_safe:
  "(\<exists>n. matchLoop data signature (getPatternSize signature) i 0 = Some n)
   \<and> (\<forall>m \<in> set (matchOffsets data signature). m + getPatternSize signature \<le> length data)
   \<and> findPattern data signature callback = collect callback (matchOffsets data signature) []
   \<and> (length data < getPatternSize signature \<longrightarrow> findPattern data signature callback = Some [])
   \<and> findPattern [] signature callback = Some []"
proof -
  have a: "\<exists>n. matchLoop data signature (getPatternSize signature) i 0 = Some n"
    using matchLoop_total [OF getPatternSize_bound] by blast
  have b: "\<forall>m \<in> set (matchOffsets data signature). m + getPatternSize signature \<le> length data"
    using matchOffsets_fit by blast
  have c: "findPattern data signature callback = collect callback (matchOffsets data signature) []"
    by (rule findPattern_collect)
  have d: "findPattern data signature callback = Some []" if "length data < getPatternSize signature"
  proof -
    have "set (matchOffsets data signature) = {}" using b that by fastforce
    then show ?thesis by (simp add: c)
  qed
  have e: "findPattern [] signature callback = Some []"
    by (simp add: findPattern_def)
  from a b c d e show ?thesis by blast
qed

theorem findPattern_bounds_safe_witness:
  "matchOffsets [0xAA, 0xAA, 0xAA] (bytesOf ''AA AA'') = [0, 1]
   \<and> 1 + getPatternSize (bytesOf ''AA AA'') \<le> length [0xAA, 0xAA, 0xAA :: byte]
   \<and> length [0xAA :: byte] < getPatternSize (bytesOf ''AA AA'')
   \<and> findPattern [0xAA] (bytesOf ''AA AA'') (\<lambda>p. None) = Some []"
proof -
  have m: "matchOffsets [0xAA, 0xAA, 0xAA] (bytesOf ''AA AA'') = [0, 1]" by code_simp
  have h: "length [0xAA :: byte] < getPatternSize (bytesOf ''AA AA'')"
    by (simp add: getPatternSize_def bytesOf_def)
  from findPattern_bounds_safe [of "[0xAA, 0xAA, 0xAA]" "bytesOf ''AA AA''" 0 "\<lambda>p. None"]
  have "\<forall>m \<in> set [0, 1 :: nat].
      m + getPatternSize (bytesOf ''AA AA'') \<le> length [0xAA, 0xAA, 0xAA :: byte]"
    unfolding m by blast
  then have f: "1 + getPatternSize (bytesOf ''AA AA'') \<le> length [0xAA, 0xAA, 0xAA :: byte]"
    by simp
  from findPattern_bounds_safe [of "[0xAA]" "bytesOf ''AA AA''" 0 "\<lambda>p. None"] h
  have e: "findPattern [0xAA] (bytesOf ''AA AA'') (\<lambda>p. None) = Some []" by blast
  from m f h e show ?thesis by blast
qed

text \<open>
  C5 (scanner output structure). With a callback \<open>f\<close> the scan returns the concatenation
  of \<open>f i\<close> over the matching offsets \<open>i\<close>; these are the offsets of \<open>[0, len(data))\<close>
  at which the attempt succeeds, in ascending order, each once, none skipped after a
  match: pattern \<open>AA AA\<close> matches buffer \<open>AA AA AA\<close> at offsets 0 and 1.
\<close>

theorem findPattern_output_order:
  "findPattern data signature (\<lambda>p. Some (f p)) =
     Some (concat (map (\<lambda>i. f (of_nat i)) (matchOffsets data signature)))
   \<and> matchOffsets data signature = filter (matchesAt data signature) [0..<length data]
   \<and> sorted_wrt (<) (matchOffsets data signature)
   \<and> set (matchOffsets data signature) = {i. i < length data \<and> matchesAt data signature i}
   \<and> matchOffsets [0xAA, 0xAA, 0xAA] (bytesOf ''AA AA'') = [0, 1]"
proof -
  have a: "findPattern data signature (\<lambda>p. Some (f p)) =
     Some (concat (map (\<lambda>i. f (of_nat i)) (matchOffsets data signature)))"
    by (rule findPattern_eq) simp
  have b: "sorted_wrt (<) (matchOffsets data signature)"
    unfolding matchOffsets_def by (rule sorted_wrt_filter) simp
  have c: "set (matchOffsets data signature) = {i. i < length data \<and> matchesAt data signature i}"
    by (auto simp: matchOffsets_def)
  have d: "matchOffsets [0xAA, 0xAA, 0xAA] (bytesOf ''AA AA'') = [0, 1]" by code_simp
  from a b c d matchOffsets_def [of data signature] show ?thesis by blast
qed

theorem findPattern_output_order_witness:
  "findPattern [0xAA, 0xAA, 0xAA] (bytesOf ''AA AA'') (\<lambda>p. Some [\<lparr> moduleDataVA = p + 0x10 \<rparr>])
     = Some [\<lparr> moduleDataVA = 0x10 \<rparr>, \<lparr> moduleDataVA = 0x11 \<rparr>]"
proof -
  note t = findPattern_output_order [of "[0xAA, 0xAA, 0xAA]" "bytesOf ''AA AA''"
      "\<lambda>p. [\<lparr> moduleDataVA = p + 0x10 \<rparr>]"]
  from t have m: "matchOffsets [0xAA, 0xAA, 0xAA] (bytesOf ''AA AA'') = [0, 1]" by blast
  from t have "findPattern [0xAA, 0xAA, 0xAA] (bytesOf ''AA AA'')
      (\<lambda>p. Some [\<lparr> moduleDataVA = p + 0x10 \<rparr>])
    = Some (concat (map (\<lambda>i. [\<lparr> moduleDataVA = of_nat i + 0x10 \<rparr>])
        (matchOffsets [0xAA, 0xAA, 0xAA] (bytesOf ''AA AA''))))"
    by blast
  then show ?thesis unfolding m by simp
qed

text \<open>
  C6 (wildcard matching semantics). For a well-formed pattern the attempt at offset \<open>i\<close>
  succeeds exactly when the pattern fits and every position matches nibble by nibble,
  a wildcard nibble matching anything and a fixed nibble matching its own value. So a
  pattern of wildcards only matches wherever it fits, and a pattern without wildcards
  matches exactly where the buffer holds its byte sequence.
\<close>

theorem wildcard_matching_semantics:
  assumes "wellFormed signature"
  shows "(matchesAt data signature i \<longleftrightarrow> specMatchesAt data signature i)
   \<and> (allWildcards signature \<longrightarrow>
        (matchesAt data signature i \<longleftrightarrow> i + getPatternSize signature \<le> length data))
   \<and> (noWildcards signature \<longrightarrow>
        (matchesAt data signature i \<longleftrightarrow>
           i + getPatternSize signature \<le> length data \<and>
           take (getPatternSize signature) (drop i data) = patternBytes signature))"
  using matchesAt_spec [OF assms] matchesAt_allWildcards [OF _ wellFormed_size(1) [OF assms]]
    matchesAt_noWildcards [OF assms]
  by blast

theorem wildcard_matching_semantics_witness:
  "wellFormed (bytesOf ''A? ?B'')
   \<and> specMatchesAt [0x00, 0xA7, 0x3B] (bytesOf ''A? ?B'') 1
   \<and> \<not> specMatchesAt [0x00, 0xA7, 0x3B] (bytesOf ''A? ?B'') 0
   \<and> wellFormed (bytesOf ''?? ??'') \<and> allWildcards (bytesOf ''?? ??'')
   \<and> matchesAt [0x00, 0xA7, 0x3B] (bytesOf ''?? ??'') 1
   \<and> \<not> matchesAt [0x00, 0xA7, 0x3B] (bytesOf ''?? ??'') 2
   \<and> wellFormed (bytesOf ''A7 3B'') \<and> noWildcards (bytesOf ''A7 3B'')
   \<and> patternBytes (bytesOf ''A7 3B'') = [0xA7, 0x3B]
   \<and> matchesAt [0x00, 0xA7, 0x3B] (bytesOf ''A7 3B'') 1
   \<and> \<not> matchesAt [0x00, 0xA7, 0x3B] (bytesOf ''A7 3B'') 0"
proof -
  have w1: "wellFormed (bytesOf ''A? ?B'')" by code_simp
  have w2: "wellFormed (bytesOf ''?? ??'')" by code_simp
  have w3: "wellFormed (bytesOf ''A7 3B'')" by code_simp
  have a: "allWildcards (bytesOf ''?? ??'')" by code_simp
  have n: "noWildcards (bytesOf ''A7 3B'')" by code_simp
  have m: "matchesAt [0x00, 0xA7, 0x3B] (bytesOf ''A? ?B'') 1"
    "\<not> matchesAt [0x00, 0xA7, 0x3B] (bytesOf ''A? ?B'') 0" by code_simp+
  have s: "getPatternSize (bytesOf ''?? ??'') = 2" "getPatternSize (bytesOf ''A7 3B'') = 2"
    by (simp_all add: getPatternSize_def bytesOf_def)
  have p: "patternBytes (bytesOf ''A7 3B'') = [0xA7, 0x3B]" by code_simp
  have i1: "specMatchesAt [0x00, 0xA7, 0x3B] (bytesOf ''A? ?B'') 1"
    using wildcard_matching_semantics [OF w1, of "[0x00, 0xA7, 0x3B]" 1] m(1) by blast
  have i2: "\<not> specMatchesAt [0x00, 0xA7, 0x3B] (bytesOf ''A? ?B'') 0"
    using wildcard_matching_semantics [OF w1, of "[0x00, 0xA7, 0x3B]" 0] m(2) by blast
  have "matchesAt [0x00, 0xA7, 0x3B] (bytesOf ''?? ??'') 1 \<longleftrightarrow>
      1 + getPatternSize (bytesOf ''?? ??'') \<le> length [0x00, 0xA7, 0x3B :: byte]"
    using wildcard_matching_semantics [OF w2, of "[0x00, 0xA7, 0x3B]" 1] a by blast
  then have i3: "matchesAt [0x00, 0xA7, 0x3B] (bytesOf ''?? ??'') 1" by (simp add: s)
  have "matchesAt [0x00, 0xA7, 0x3B] (bytesOf ''?? ??'') 2 \<longleftrightarrow>
      2 + getPatternSize (bytesOf ''?? ??'') \<le> length [0x00, 0xA7, 0x3B :: byte]"
    using wildcard_matching_semantics [OF w2, of "[0x00, 0xA7, 0x3B]" 2] a by blast
  then have i4: "\<not> matchesAt [0x00, 0xA7, 0x3B] (bytesOf ''?? ??'') 2" by (simp add: s)
  have "matchesAt [0x00, 0xA7, 0x3B] (bytesOf ''A7 3B'') 1 \<longleftrightarrow>
      1 + getPatternSize (bytesOf ''A7 3B'') \<le> length [0x00, 0xA7, 0x3B :: byte] \<and>
      take (getPatternSize (bytesOf ''A7 3B'')) (drop 1 [0x00, 0xA7, 0x3B]) =
        patternBytes (bytesOf ''A7 3B'')"
    using wildcard_matching_semantics [OF w3, of "[0x00, 0xA7, 0x3B]" 1] n by blast
  then have i5: "matchesAt [0x00, 0xA7, 0x3B] (bytesOf ''A7 3B'') 1" by (simp add: s p)
  have "matchesAt [0x00, 0xA7, 0x3B] (bytesOf ''A7 3B'') 0 \<longleftrightarrow>
      0 + getPatternSize (bytesOf ''A7 3B'') \<le> length [0x00, 0xA7, 0x3B :: byte] \<and>
      take (getPatternSize (bytesOf ''A7 3B'')) (drop 0 [0x00, 0xA7, 0x3B]) =
        patternBytes (bytesOf ''A7 3B'')"
    using wildcard_matching_semantics [OF w3, of "[0x00, 0xA7, 0x3B]" 0] n by blast
  then have i6: "\<not> matchesAt [0x00, 0xA7, 0x3B] (bytesOf ''A7 3B'') 0" by (simp add: s p)
  from w1 w2 w3 a n p i1 i2 i3 i4 i5 i6 show ?thesis by blast
qed

text \<open>
  C10 (case-insensitive hexadecimal digits). \<open>getBits\<close> gives a hexadecimal letter and
  the letter of the opposite case the same nibble, the lowercase letters \<open>a\<close> to \<open>f\<close>
  the values 10 to 15; and replacing hexadecimal letters of a pattern text by the
  letters of the opposite case leaves the result of \<open>findPattern\<close> unchanged, for every
  buffer and every callback.
\<close>

theorem getBits_case_insensitive:
  "(isHexLetter c \<longrightarrow> getBits (swapHexCase c) = getBits c)
   \<and> map getBits (bytesOf ''abcdef'') = map getBits (bytesOf ''ABCDEF'')
   \<and> map getBits (bytesOf ''abcdef'') = [10, 11, 12, 13, 14, 15]
   \<and> (caseVariant signature signature' \<longrightarrow>
        findPattern data signature' callback = findPattern data signature callback)"
proof -
  have a: "isHexLetter c \<longrightarrow> getBits (swapHexCase c) = getBits c"
    using swapHexCase_getBits by blast
  have b: "map getBits (bytesOf ''abcdef'') = [10, 11, 12, 13, 14, 15]"
    "map getBits (bytesOf ''ABCDEF'') = [10, 11, 12, 13, 14, 15]"
    by (simp_all add: bytesOf_def getBits_def)
  have c: "findPattern data signature' callback = findPattern data signature callback"
    if "caseVariant signature signature'"
    by (simp add: findPattern_collect matchOffsets_caseVariant [OF that])
  from a b c show ?thesis by simp
qed

theorem getBits_case_insensitive_witness:
  "isHexLetter 0x61 \<and> swapHexCase 0x61 = 0x41 \<and> getBits 0x41 = getBits 0x61
   \<and> caseVariant (bytesOf ''AA 3B'') (bytesOf ''aA 3b'')
   \<and> findPattern [0xAA, 0x3B, 0xAA] (bytesOf ''aA 3b'') (\<lambda>p. Some [\<lparr> moduleDataVA = p \<rparr>])
     = findPattern [0xAA, 0x3B, 0xAA] (bytesOf ''AA 3B'') (\<lambda>p. Some [\<lparr> moduleDataVA = p \<rparr>])"
proof -
  have l: "isHexLetter 0x61" "swapHexCase 0x61 = 0x41"
    by (simp_all add: isHexLetter_def swapHexCase_def)
  have v: "caseVariant (bytesOf ''AA 3B'') (bytesOf ''aA 3b'')" by code_simp
  show ?thesis
    using l v getBits_case_insensitive [of "0x61" "bytesOf ''AA 3B''" "bytesOf ''aA 3b''"
      "[0xAA, 0x3B, 0xAA]" "\<lambda>p. Some [\<lparr> moduleDataVA = p \<rparr>]"]
    by simp
qed

lemma x64_worked_example:
  "x64Resolve x64Example 0x00400000 0 = Some [\<lparr> moduleDataVA = 0x0026DA8F + 7 + 0x00400000 \<rparr>]"
  by code_simp

text \<open>
  C1 (64-bit resolver). The resolver reads the 32-bit displacement with
  \<open>binary.LittleEndian.Uint32\<close> and converts it with \<open>uint64(...)\<close>, which extends it
  with zeros. On the listing of the source with the displacement bytes \<open>F0 FF FF FF\<close>
  (\<open>-16\<close> as a signed 32-bit value), section base \<open>0x400000\<close>, the scan returns
  \<open>0xFFFFFFF0 + 7 + 0x400000 = 0x1003FFFF7\<close>, where the signed reading of the claim
  gives \<open>-16 + 7 + 0x400000 = 0x3FFFF7\<close>.
\<close>

theorem x64_resolver_zero_extends:
  "x64Scan x64Negative 0x00400000 = Some [\<lparr> moduleDataVA = 0x1003FFFF7 \<rparr>]
   \<and> sint (le32At x64Negative 3) = - 16
   \<and> (scast (le32At x64Negative 3) + (0 + 7) + 0x00400000 :: 64 word) = 0x3FFFF7
   \<and> (ucast (le32At x64Negative 3) + (0 + 7) + 0x00400000 :: 64 word) = 0x1003FFFF7"
proof -
  have a: "x64Scan x64Negative 0x00400000 = Some [\<lparr> moduleDataVA = 0x1003FFFF7 \<rparr>]"
    by code_simp
  have b: "le32At x64Negative 3 = 0xFFFFFFF0"
    by (simp add: le32At_def x64Negative_def)
  show ?thesis unfolding b using a by simp
qed

text \<open>
  C2 (32-bit resolver). For a buffer of a length Go can represent, the 32-bit scan returns,
  for every first-stage match \<open>m\<close> in ascending order and every second-stage match \<open>m2\<close>
  of the loop signature in the sub-buffer starting at \<open>m\<close>, the 32-bit little-endian
  value at \<open>m + 2\<close>, zero-extended and with no section base added, when \<open>m2 < 50\<close>, and
  nothing when \<open>m2 >= 50\<close>.
\<close>

theorem x86_resolver_distance_bound:
  assumes "length data < 2 ^ 64"
  shows "x86Scan data =
     Some (concat (map (\<lambda>m. concat (map
         (\<lambda>m2. if m2 < unat (x86_loopMaxDistanceFromModuleData x86sig)
                then [\<lparr> moduleDataVA = ucast (le32At data (m + unat (x86_moduleDataPtrLoc x86sig))) \<rparr>]
                else [])
         (matchOffsets (drop m data) (x86_loopSignature x86sig))))
       (matchOffsets data (x86_moduleDataSignature x86sig))))
    \<and> unat (x86_loopMaxDistanceFromModuleData x86sig) = 50
    \<and> unat (x86_moduleDataPtrLoc x86sig) = 2"
proof -
  have c: "unat (x86_loopMaxDistanceFromModuleData x86sig) = 50"
    "unat (x86_moduleDataPtrLoc x86sig) = 2"
    by (simp_all add: x86sig_def)
  show ?thesis unfolding c using x86Scan_value [OF assms] by simp
qed

theorem x86_resolver_distance_bound_witness:
  "length (x86Example 49) < 2 ^ 64 \<and> length (x86Example 50) < 2 ^ 64
   \<and> matchOffsets (x86Example 49) (x86_moduleDataSignature x86sig) = [0]
   \<and> matchOffsets (x86Example 49) (x86_loopSignature x86sig) = [49]
   \<and> x86Scan (x86Example 49) = Some [\<lparr> moduleDataVA = 0x006A4960 \<rparr>]
   \<and> matchOffsets (x86Example 50) (x86_moduleDataSignature x86sig) = [0]
   \<and> matchOffsets (x86Example 50) (x86_loopSignature x86sig) = [50]
   \<and> x86Scan (x86Example 50) = Some []"
proof -
  have l: "length (x86Example 49) < 2 ^ 64" "length (x86Example 50) < 2 ^ 64"
    by (simp_all add: x86Example_def)
  have m49: "matchOffsets (x86Example 49) (x86_moduleDataSignature x86sig) = [0]" by code_simp
  have n49: "matchOffsets (x86Example 49) (x86_loopSignature x86sig) = [49]" by code_simp
  have m50: "matchOffsets (x86Example 50) (x86_moduleDataSignature x86sig) = [0]" by code_simp
  have n50: "matchOffsets (x86Example 50) (x86_loopSignature x86sig) = [50]" by code_simp
  have "le32At (x86Example 49) 2 = 0x006A4960"
    by (simp add: le32At_def x86Example_def)
  then have v: "le32At (x86Example 49) (Suc (Suc 0)) = 0x006A4960"
    by (simp add: numeral_2_eq_2)
  have c: "unat (x86_loopMaxDistanceFromModuleData x86sig) = 50"
    "unat (x86_moduleDataPtrLoc x86sig) = 2"
    by (simp_all add: x86sig_def)
  from x86_resolver_distance_bound [OF l(1)]
  have a: "x86Scan (x86Example 49) = Some [\<lparr> moduleDataVA = 0x006A4960 \<rparr>]"
    unfolding m49 c by (simp add: n49 v)
  from x86_resolver_distance_bound [OF l(2)]
  have b: "x86Scan (x86Example 50) = Some []"
    unfolding m50 c by (simp add: n50)
  from l m49 n49 m50 n50 a b show ?thesis by blast
qed

text \<open>
  C3 (big-endian resolver). For a buffer of a length Go can represent and an offset
  \<open>m\<close> with the eight bytes after it inside the buffer, the resolver returns
  \<open>(hi << 16) + lo\<close> computed on integers and reduced modulo \<open>2^64\<close>, with \<open>hi\<close> the
  unsigned 16-bit big-endian value at \<open>m + 2\<close> and \<open>lo\<close> the signed one at \<open>m + 6\<close>;
  the scan returns this value for every match; and \<open>hi = 0x002C\<close>, \<open>lo = 0x8000\<close>
  (\<open>-32768\<close>) give \<open>0x2B8000\<close>.
\<close>

theorem ppc_resolver_signed_sum:
  assumes "length data < 2 ^ 64"
  shows "(m + 8 \<le> length data \<longrightarrow>
      ppcResolve data (of_nat m) = Some [\<lparr> moduleDataVA =
        word_of_int (uint (be16At data (m + unat (ppc_moduleDataPtrHi PPC_BE_sig))) * 2 ^ 16
          + sint (be16At data (m + unat (ppc_moduleDataPtrLo PPC_BE_sig)))) \<rparr>])
    \<and> ppcScan data =
       Some (map (\<lambda>m. \<lparr> moduleDataVA =
         word_of_int (uint (be16At data (m + unat (ppc_moduleDataPtrHi PPC_BE_sig))) * 2 ^ 16
           + sint (be16At data (m + unat (ppc_moduleDataPtrLo PPC_BE_sig)))) \<rparr>)
         (matchOffsets data (ppc_signature PPC_BE_sig)))
    \<and> unat (ppc_moduleDataPtrHi PPC_BE_sig) = 2 \<and> unat (ppc_moduleDataPtrLo PPC_BE_sig) = 6
    \<and> sint (0x8000 :: 16 word) = - 32768
    \<and> (word_of_int (uint (0x002C :: 16 word) * 2 ^ 16 + sint (0x8000 :: 16 word)) :: 64 word)
        = 0x2B8000"
proof -
  have c: "unat (ppc_moduleDataPtrHi PPC_BE_sig) = 2" "unat (ppc_moduleDataPtrLo PPC_BE_sig) = 6"
    by (simp_all add: PPC_BE_sig_def)
  have e: "sint (0x8000 :: 16 word) = - 32768"
    "(word_of_int (uint (0x002C :: 16 word) * 2 ^ 16 + sint (0x8000 :: 16 word)) :: 64 word)
        = 0x2B8000"
    by simp_all
  show ?thesis
    unfolding c using ppcResolve_value [OF assms, of m] ppcScan_value [OF assms] e by blast
qed

theorem ppc_resolver_signed_sum_witness:
  "length [0x00, 0x00, 0x12, 0x34, 0x00, 0x00, 0xFF, 0xFE :: byte] < 2 ^ 64
   \<and> 0 + 8 \<le> length [0x00, 0x00, 0x12, 0x34, 0x00, 0x00, 0xFF, 0xFE :: byte]
   \<and> ppcResolve [0x00, 0x00, 0x12, 0x34, 0x00, 0x00, 0xFF, 0xFE] 0
       = Some [\<lparr> moduleDataVA = 0x1233FFFE \<rparr>]"
proof -
  have l: "length [0x00, 0x00, 0x12, 0x34, 0x00, 0x00, 0xFF, 0xFE :: byte] < 2 ^ 64" by simp
  have b: "be16At [0x00, 0x00, 0x12, 0x34, 0x00, 0x00, 0xFF, 0xFE] (0 + 2) = 0x1234"
    "be16At [0x00, 0x00, 0x12, 0x34, 0x00, 0x00, 0xFF, 0xFE] (0 + 6) = 0xFFFE"
    by (simp_all add: be16At_def)
  have c: "unat (ppc_moduleDataPtrHi PPC_BE_sig) = 2" "unat (ppc_moduleDataPtrLo PPC_BE_sig) = 6"
    by (simp_all add: PPC_BE_sig_def)
  from ppc_resolver_signed_sum [OF l, of 0]
  have "ppcResolve [0x00, 0x00, 0x12, 0x34, 0x00, 0x00, 0xFF, 0xFE] (of_nat 0) =
      Some [\<lparr> moduleDataVA = word_of_int (uint (0x1234 :: 16 word) * 2 ^ 16
         + sint (0xFFFE :: 16 word)) \<rparr>]"
    unfolding c b by simp
  then show ?thesis by simp
qed

text \<open>
  C7 (match collector). None of the three scans panics, and \<open>findModuleInitPCHeader\<close>
  returns the result of the 64-bit scan, followed by that of the 32-bit scan, followed
  by that of the big-endian scan, all over the same buffer, with nothing removed,
  reordered or merged.
\<close>

theorem findModuleInitPCHeader_concat:
  "\<exists>a b c. x64Scan data sectionBase = Some a \<and> x86Scan data = Some b \<and> ppcScan data = Some c
     \<and> findModuleInitPCHeader data sectionBase = Some (a @ b @ c)"
proof -
  obtain a where a: "x64Scan data sectionBase = Some a" using x64Scan_total by blast
  obtain b where b: "x86Scan data = Some b" using x86Scan_total by blast
  obtain c where c: "ppcScan data = Some c" using ppcScan_total by blast
  from findModuleInitPCHeader_eq [OF a b c] a b c show ?thesis by blast
qed

theorem findModuleInitPCHeader_concat_witness:
  "findModuleInitPCHeader (ppcExample @ x86Example 8 @ x64Example) 0x00400000 =
     Some [\<lparr> moduleDataVA = 0x0026DA8F + (46 + 7) + 0x00400000 \<rparr>,
           \<lparr> moduleDataVA = 0x006A4960 \<rparr>,
           \<lparr> moduleDataVA = 0x2B8000 \<rparr>]"
proof -
  let ?d = "ppcExample @ x86Example 8 @ x64Example"
  have a: "x64Scan ?d 0x00400000 = Some [\<lparr> moduleDataVA = 0x0026DA8F + (46 + 7) + 0x00400000 \<rparr>]"
    by code_simp
  have b: "x86Scan ?d = Some [\<lparr> moduleDataVA = 0x006A4960 \<rparr>]" by code_simp
  have c: "ppcScan ?d = Some [\<lparr> moduleDataVA = 0x2B8000 \<rparr>]" by code_simp
  from findModuleInitPCHeader_concat [of ?d "0x00400000"] show ?thesis
    unfolding a b c by auto
qed

text \<open>
  C8 (the big-endian scan's value is constant). The pattern fixes the bytes at offsets
  2, 3, 6 and 7 of a match to \<open>00 2C 80 00\<close>, the bytes the resolver reads, so for a
  buffer of a length Go can represent every value the big-endian scan returns is
  \<open>0x2B8000\<close>.
\<close>

theorem ppc_scan_constant:
  assumes "length data < 2 ^ 64"
  shows "(\<forall>m \<in> set (matchOffsets data (ppc_signature PPC_BE_sig)).
        data ! (m + 2) = 0x00 \<and> data ! (m + 3) = 0x2C \<and> data ! (m + 6) = 0x80 \<and>
        data ! (m + 7) = 0x00)
    \<and> ppcScan data =
       Some (replicate (length (matchOffsets data (ppc_signature PPC_BE_sig)))
         \<lparr> moduleDataVA = 0x2B8000 \<rparr>)
    \<and> (0x2B8000 :: 64 word) = push_bit 16 0x002C - 0x8000"
proof -
  have a: "\<forall>m \<in> set (matchOffsets data (ppc_signature PPC_BE_sig)).
        data ! (m + 2) = 0x00 \<and> data ! (m + 3) = 0x2C \<and> data ! (m + 6) = 0x80 \<and>
        data ! (m + 7) = 0x00"
    using matchOffsets_fit ppc_fixed_bytes by blast
  have b: "(0x2B8000 :: 64 word) = push_bit 16 0x002C - 0x8000" by simp
  from a b ppcScan_const [OF assms] show ?thesis by blast
qed

theorem ppc_scan_constant_witness:
  "length (0x77 # ppcExample) < 2 ^ 64
   \<and> matchOffsets (0x77 # ppcExample) (ppc_signature PPC_BE_sig) = [1]
   \<and> ppcScan (0x77 # ppcExample) = Some [\<lparr> moduleDataVA = 0x2B8000 \<rparr>]"
proof -
  have l: "length (0x77 # ppcExample) < 2 ^ 64" by (simp add: ppcExample_def)
  have m: "matchOffsets (0x77 # ppcExample) (ppc_signature PPC_BE_sig) = [1]" by code_simp
  from ppc_scan_constant [OF l] have "ppcScan (0x77 # ppcExample) = Some [\<lparr> moduleDataVA = 0x2B8000 \<rparr>]"
    unfolding m by simp
  with l m show ?thesis by blast
qed

text \<open>
  C9 (resolver reads stay in bounds). In each static signature the offset the resolver
  reads at, plus the width of the read, is within the byte length of the pattern
  (4 bytes at 3 of 22; 4 bytes at 2 of 8; 2 bytes at 2 and at 6 of 24). The scanner calls
  a resolver only where the whole pattern fits, where the resolver does not panic; so
  for every buffer no scan and no call of \<open>findModuleInitPCHeader\<close> panics.
\<close>

theorem resolver_reads_in_bounds:
  "getPatternSize (x64_signature x64sig) = 22
   \<and> unat (x64_moduleDataPtrLoc x64sig) + 4 \<le> getPatternSize (x64_signature x64sig)
   \<and> getPatternSize (x86_moduleDataSignature x86sig) = 8
   \<and> unat (x86_moduleDataPtrLoc x86sig) + 4 \<le> getPatternSize (x86_moduleDataSignature x86sig)
   \<and> getPatternSize (ppc_signature PPC_BE_sig) = 24
   \<and> unat (ppc_moduleDataPtrHi PPC_BE_sig) + 2 \<le> getPatternSize (ppc_signature PPC_BE_sig)
   \<and> unat (ppc_moduleDataPtrLo PPC_BE_sig) + 2 \<le> getPatternSize (ppc_signature PPC_BE_sig)
   \<and> (i + getPatternSize (x64_signature x64sig) \<le> length data \<longrightarrow>
        (\<exists>r. x64Resolve data sectionBase (of_nat i) = Some r))
   \<and> (i + getPatternSize (x86_moduleDataSignature x86sig) \<le> length data \<longrightarrow>
        (\<exists>r. x86Resolve data (of_nat i) = Some r) \<and>
        (\<exists>r. x86LoopResolve data (of_nat i) sigPtr2 = Some r))
   \<and> (i + getPatternSize (ppc_signature PPC_BE_sig) \<le> length data \<longrightarrow>
        (\<exists>r. ppcResolve data (of_nat i) = Some r))
   \<and> (\<exists>r. x64Scan data sectionBase = Some r)
   \<and> (\<exists>r. x86Scan data = Some r)
   \<and> (\<exists>r. ppcScan data = Some r)
   \<and> (\<exists>r. findModuleInitPCHeader data sectionBase = Some r)"
proof -
  have o: "unat (x64_moduleDataPtrLoc x64sig) = 3" "unat (x86_moduleDataPtrLoc x86sig) = 2"
    "unat (ppc_moduleDataPtrHi PPC_BE_sig) = 2" "unat (ppc_moduleDataPtrLo PPC_BE_sig) = 6"
    by (simp_all add: x64sig_def x86sig_def PPC_BE_sig_def)
  obtain a where a: "x64Scan data sectionBase = Some a" using x64Scan_total by blast
  obtain b where b: "x86Scan data = Some b" using x86Scan_total by blast
  obtain c where c: "ppcScan data = Some c" using ppcScan_total by blast
  have f: "\<exists>r. findModuleInitPCHeader data sectionBase = Some r"
    using findModuleInitPCHeader_eq [OF a b c] by blast
  show ?thesis
    unfolding patternSizes o
    using a b c f x64Resolve_total [of i data sectionBase] x86Resolve_total [of i data]
      x86LoopResolve_total [of i data sigPtr2] ppcResolve_total [of i data]
    by simp
qed

theorem resolver_reads_in_bounds_witness:
  "0 + getPatternSize (x64_signature x64sig) \<le> length x64Example
   \<and> x64Resolve x64Example 0x00400000 0 = Some [\<lparr> moduleDataVA = 0x0026DA8F + 7 + 0x00400000 \<rparr>]
   \<and> (\<exists>r. findModuleInitPCHeader x64Example 0x00400000 = Some r)
   \<and> (\<exists>r. findModuleInitPCHeader (take 5 x64Example) 0x00400000 = Some r)"
proof -
  have l: "0 + getPatternSize (x64_signature x64sig) \<le> length x64Example"
    by (simp add: patternSizes x64Example_def)
  have v: "x64Resolve x64Example 0x00400000 0 = Some [\<lparr> moduleDataVA = 0x0026DA8F + 7 + 0x00400000 \<rparr>]"
    by (rule x64_worked_example)
  from l v resolver_reads_in_bounds [of 0 x64Example "0x00400000"]
    resolver_reads_in_bounds [of 0 "take 5 x64Example" "0x00400000"]
  show ?thesis by blast
qed

end
